theory Spec2Isabelle
  imports Complex_Main "HOL-Library.Sublist"
begin

section \<open>Data model\<close>

text \<open>
  The program (\<^verbatim>\<open>src/app.py\<close>) keeps its data in a pandas \<^verbatim>\<open>DataFrame\<close>: a sequence of
  rows under a sequence of named columns. A cell is missing (NaN/None), a number or a
  string. A Python \<^verbatim>\<open>bool\<close> is the number 1 or 0 (\<^verbatim>\<open>bool\<close> is a subtype of \<^verbatim>\<open>int\<close>,
  \<^verbatim>\<open>True == 1\<close>, and pandas sums and compares it so), so it is a \<open>Num\<close> here. Numbers are
  rationals: every integer and every finite double is one.
\<close>

datatype cell = Null | Num rat | Str string

record dataframe =
  columns :: "string list"
  rows :: "cell list list"



text \<open>
  A percentage is a Python float: a number, or NaN (the mean of no values). The arithmetic
  on percentages is modelled exactly, over the rationals, without the rounding error of
  binary64.
\<close>

datatype py_float = NaN | Fin rat

fun fmap :: "(rat \<Rightarrow> rat) \<Rightarrow> py_float \<Rightarrow> py_float" where
  "fmap f NaN = NaN"
| "fmap f (Fin x) = Fin (f x)"

fun fadd :: "py_float \<Rightarrow> py_float \<Rightarrow> py_float" where
  "fadd (Fin x) (Fin y) = Fin (x + y)"
| "fadd _ _ = NaN"

datatype error = TypeError | ValueError | DecodeError | ParseError

record metrics =
  completeness :: py_float
  consistency :: py_float
  overall_integrity :: py_float
  valid_records :: rat
  invalid_records :: rat

section \<open>Library operations used by \<^verbatim>\<open>calculate_metrics\<close>\<close>

text \<open>\<^verbatim>\<open>len(df)\<close>.\<close>

definition total_records :: "dataframe \<Rightarrow> nat" where
  "total_records df = length (rows df)"

text \<open>The cell of a row under a column name; the values of a column, \<^verbatim>\<open>df[name]\<close>.\<close>

definition get_cell :: "string list \<Rightarrow> cell list \<Rightarrow> string \<Rightarrow> cell" where
  "get_cell cols r name = (case map_of (zip cols r) name of Some c \<Rightarrow> c | None \<Rightarrow> Null)"

definition column_values :: "dataframe \<Rightarrow> string \<Rightarrow> cell list" where
  "column_values df name = map (\<lambda>r. get_cell (columns df) r name) (rows df)"

definition notnull :: "cell \<Rightarrow> bool" where
  "notnull c \<longleftrightarrow> c \<noteq> Null"

text \<open>
  \<^verbatim>\<open>Series.mean()\<close>: the mean of the values that are not NaN, and NaN when there is none.
\<close>

fun finite_values :: "py_float list \<Rightarrow> rat list" where
  "finite_values [] = []"
| "finite_values (NaN # xs) = finite_values xs"
| "finite_values (Fin x # xs) = x # finite_values xs"

definition mean :: "py_float list \<Rightarrow> py_float" where
  "mean xs = (let vs = finite_values xs
              in if vs = [] then NaN else Fin (sum_list vs / of_nat (length vs)))"

text \<open>\<^verbatim>\<open>df.notnull().mean()\<close>: for each column, the mean of the indicator "is not null".\<close>

definition indicator :: "bool \<Rightarrow> py_float" where
  "indicator b = Fin (if b then 1 else 0)"

definition notnull_mean :: "dataframe \<Rightarrow> py_float list" where
  "notnull_mean df =
     map (\<lambda>name. mean (map (\<lambda>c. indicator (notnull c)) (column_values df name))) (columns df)"

text \<open>
  \<^verbatim>\<open>df.duplicated()\<close> (keep = first): a row is marked when an equal row was seen before it;
  missing cells are equal to each other. pandas returns an empty series for a frame
  without rows or without columns.
\<close>

fun duplicated_from :: "'a list \<Rightarrow> 'a list \<Rightarrow> bool list" where
  "duplicated_from seen [] = []"
| "duplicated_from seen (r # rs) = (r \<in> set seen) # duplicated_from (r # seen) rs"

definition duplicated :: "dataframe \<Rightarrow> bool list" where
  "duplicated df =
     (if rows df = [] \<or> columns df = [] then [] else duplicated_from [] (rows df))"

definition count_true :: "bool list \<Rightarrow> nat" where
  "count_true bs = length (filter (\<lambda>b. b) bs)"

text \<open>
  \<^verbatim>\<open>df["valid"].sum()\<close>: missing values are skipped and numbers are added. A column
  holding a string has no numeric sum: pandas raises, or returns a string that the
  subtraction from the row count then rejects; both are a \<open>TypeError\<close>. The sum is
  exact: neither the rounding of a float64 sum nor the wrap-around of an int64 sum is
  modelled.
\<close>

fun series_sum :: "cell list \<Rightarrow> error + rat" where
  "series_sum [] = Inr 0"
| "series_sum (Null # cs) = series_sum cs"
| "series_sum (Num x # cs) = (case series_sum cs of Inl e \<Rightarrow> Inl e | Inr s \<Rightarrow> Inr (x + s))"
| "series_sum (Str s # cs) = Inl TypeError"

section \<open>Binary64 multiplication and \<^verbatim>\<open>int\<close>\<close>

text \<open>
  \<^verbatim>\<open>int(0.9 * total_records)\<close> truncates a binary64 product to an integer, so a rounding
  error could move the result by a whole unit. This product is therefore modelled bit for
  bit: the literal \<^verbatim>\<open>0.9\<close> is the double \<open>8106479329266893 / 2^53\<close>, the row count is
  converted to a double, and the product is rounded to the nearest double, ties to even.
  Overflow and subnormal numbers are out of reach of a row count and are not modelled.
\<close>

definition round_half_even :: "rat \<Rightarrow> int" where
  "round_half_even x =
     (let f = \<lfloor>x\<rfloor>; d = x - of_int f
      in if d < 1 / 2 then f else if 1 / 2 < d then f + 1 else if even f then f else f + 1)"

text \<open>The number of binary digits of a natural number, Python's \<^verbatim>\<open>int.bit_length\<close>.\<close>

fun bit_length :: "nat \<Rightarrow> nat" where
  "bit_length n = (if n = 0 then 0 else Suc (bit_length (n div 2)))"

declare bit_length.simps [simp del]

text \<open>The exponent \<open>e\<close> of a positive rational: \<open>2^e \<le> x < 2^(e+1)\<close>.\<close>

definition exponent :: "rat \<Rightarrow> int" where
  "exponent x =
     (if 1 \<le> x then int (bit_length (nat \<lfloor>x\<rfloor>)) - 1
      else - int (bit_length (nat (\<lceil>1 / x\<rceil> - 1))))"

text \<open>Two to an integer power.\<close>

definition pow2 :: "int \<Rightarrow> rat" where
  "pow2 k = (if 0 \<le> k then 2 ^ nat k else 1 / 2 ^ nat (- k))"

text \<open>The nearest double (53 significant bits) of a rational, ties to even.\<close>

definition round_double :: "rat \<Rightarrow> rat" where
  "round_double x =
     (if x = 0 then 0
      else let u = pow2 (exponent \<bar>x\<bar> - 52)
           in sgn x * (of_int (round_half_even (\<bar>x\<bar> / u)) * u))"

definition float_0_9 :: rat where
  "float_0_9 = 8106479329266893 / 2 ^ 53"

text \<open>\<^verbatim>\<open>int(x)\<close> of a float truncates towards zero.\<close>

definition py_int :: "rat \<Rightarrow> int" where
  "py_int x = (if 0 \<le> x then \<lfloor>x\<rfloor> else \<lceil>x\<rceil>)"

text \<open>\<^verbatim>\<open>int(0.9 * total_records)\<close>.\<close>

definition fallback_valid :: "nat \<Rightarrow> int" where
  "fallback_valid n = py_int (round_double (float_0_9 * round_double (of_nat n)))"

section \<open>\<^verbatim>\<open>calculate_metrics\<close>\<close>

text \<open>\<^verbatim>\<open>round(x, 2)\<close>: to the nearest multiple of 1/100, ties to even; NaN stays NaN.\<close>

definition round2 :: "py_float \<Rightarrow> py_float" where
  "round2 = fmap (\<lambda>x. of_int (round_half_even (x * 100)) / 100)"

text \<open>The three percentages before rounding (lines 24, 27 and 30).\<close>

definition raw_completeness :: "dataframe \<Rightarrow> py_float" where
  "raw_completeness df = fmap (\<lambda>x. x * 100) (mean (notnull_mean df))"

definition raw_consistency :: "dataframe \<Rightarrow> py_float" where
  "raw_consistency df =
     Fin (100 - of_nat (count_true (duplicated df)) / of_nat (total_records df) * 100)"

definition raw_overall_integrity :: "dataframe \<Rightarrow> py_float" where
  "raw_overall_integrity df =
     fadd (fmap (\<lambda>x. 6 / 10 * x) (raw_completeness df))
          (fmap (\<lambda>x. 4 / 10 * x) (raw_consistency df))"

text \<open>Line 33: the sum of the column \<^verbatim>\<open>valid\<close> when there is one, else the fallback.\<close>

definition compute_valid :: "dataframe \<Rightarrow> error + rat" where
  "compute_valid df =
     (if ''valid'' \<in> set (columns df) then series_sum (column_values df ''valid'')
      else Inr (of_int (fallback_valid (total_records df))))"

definition zero_metrics :: metrics where
  "zero_metrics = \<lparr>completeness = Fin 0, consistency = Fin 0, overall_integrity = Fin 0,
                   valid_records = 0, invalid_records = 0\<rparr>"

definition calculate_metrics :: "dataframe \<Rightarrow> error + metrics" where
  "calculate_metrics df =
     (if total_records df = 0 then Inr zero_metrics
      else case compute_valid df of
             Inl e \<Rightarrow> Inl e
           | Inr v \<Rightarrow>
               Inr \<lparr>completeness = round2 (raw_completeness df),
                    consistency = round2 (raw_consistency df),
                    overall_integrity = round2 (raw_overall_integrity df),
                    valid_records = v,
                    invalid_records = of_nat (total_records df) - v\<rparr>)"

section \<open>Ingestion: the upload callback\<close>

text \<open>
  \<^verbatim>\<open>update_visualizations\<close> (lines 127 to 152) decodes every uploaded file, parses it
  by the extension of its name, and concatenates the frames. The decoders and parsers are
  library code (\<^verbatim>\<open>base64\<close>, pandas, PyPDF2); they are parameters of the model, each
  returning its result or the error it raises. \<open>read_csv\<close> stands for decoding the
  bytes as UTF-8 and parsing them, \<open>pdf_pages\<close> for opening the document and extracting
  the text of each page.
\<close>

record library =
  b64decode :: "string \<Rightarrow> error + string"
  read_csv :: "string \<Rightarrow> error + dataframe"
  read_excel :: "string \<Rightarrow> error + dataframe"
  pdf_pages :: "string \<Rightarrow> error + string list"

text \<open>\<^verbatim>\<open>s.split(d)\<close> for a one-character separator.\<close>

fun split_on :: "char \<Rightarrow> string \<Rightarrow> string list" where
  "split_on d [] = [[]]"
| "split_on d (c # cs) =
     (if c = d then [] # split_on d cs
      else case split_on d cs of p # ps \<Rightarrow> (c # p) # ps | [] \<Rightarrow> [[c]])"

text \<open>
  \<^verbatim>\<open>_, content_string = content.split(",")\<close>: unpacking raises a \<open>ValueError\<close> unless the
  split has exactly two parts.
\<close>

definition content_string :: "string \<Rightarrow> error + string" where
  "content_string content =
     (case split_on CHR '','' content of [_, s] \<Rightarrow> Inr s | _ \<Rightarrow> Inl ValueError)"

text \<open>\<^verbatim>\<open>pd.DataFrame({"content": text_data})\<close>: one row per page.\<close>

definition pdf_frame :: "string list \<Rightarrow> dataframe" where
  "pdf_frame text_data = \<lparr>columns = [''content''], rows = map (\<lambda>t. [Str t]) text_data\<rparr>"

text \<open>
  One turn of the loop (lines 131 to 146): the frame to append, or \<open>None\<close> where the
  source says \<^verbatim>\<open>continue\<close>.
\<close>

definition read_upload :: "library \<Rightarrow> string \<Rightarrow> string \<Rightarrow> error + dataframe option" where
  "read_upload lib content filename =
     (case content_string content of
        Inl e \<Rightarrow> Inl e
      | Inr cs \<Rightarrow>
          (case b64decode lib cs of
             Inl e \<Rightarrow> Inl e
           | Inr decoded \<Rightarrow>
               if suffix ''.csv'' filename then
                 (case read_csv lib decoded of Inl e \<Rightarrow> Inl e | Inr df \<Rightarrow> Inr (Some df))
               else if suffix ''.xlsx'' filename then
                 (case read_excel lib decoded of Inl e \<Rightarrow> Inl e | Inr df \<Rightarrow> Inr (Some df))
               else if suffix ''.pdf'' filename then
                 (case pdf_pages lib decoded of
                    Inl e \<Rightarrow> Inl e
                  | Inr text_data \<Rightarrow> Inr (Some (pdf_frame text_data)))
               else Inr None))"









section \<open>The quantities the properties speak of\<close>

text \<open>
  Row \<open>i\<close> is a duplicate when an earlier row is identical to it; \<open>duplicate_rows\<close>
  counts such rows.
\<close>

definition earlier_equal :: "'a list \<Rightarrow> nat \<Rightarrow> bool" where
  "earlier_equal rs i \<longleftrightarrow> (\<exists>j<i. rs ! j = rs ! i)"








fun is_string :: "cell \<Rightarrow> bool" where
  "is_string (Str s) \<longleftrightarrow> True"
| "is_string _ \<longleftrightarrow> False"


definition is_integer :: "rat \<Rightarrow> bool" where
  "is_integer x \<longleftrightarrow> of_int \<lfloor>x\<rfloor> = x"

fun integral_cell :: "cell \<Rightarrow> bool" where
  "integral_cell Null \<longleftrightarrow> True"
| "integral_cell (Num x) \<longleftrightarrow> is_integer x"
| "integral_cell (Str s) \<longleftrightarrow> False"

text \<open>
  \<open>rounded2 y x\<close>: the float \<open>y\<close> is \<open>x\<close> rounded to two decimal places, a multiple of
  1/100 at most 1/200 away from \<open>x\<close>.
\<close>

fun rounded2 :: "py_float \<Rightarrow> py_float \<Rightarrow> bool" where
  "rounded2 (Fin y) (Fin x) \<longleftrightarrow> is_integer (y * 100) \<and> \<bar>y - x\<bar> \<le> 1 / 200"
| "rounded2 _ _ \<longleftrightarrow> False"

fun two_decimals :: "py_float \<Rightarrow> bool" where
  "two_decimals (Fin y) \<longleftrightarrow> is_integer (y * 100)"
| "two_decimals NaN \<longleftrightarrow> False"

text \<open>The share of non-null cells of one column.\<close>

definition column_ratio :: "dataframe \<Rightarrow> string \<Rightarrow> rat" where
  "column_ratio df name =
     of_nat (length (filter notnull (column_values df name))) / of_nat (length (rows df))"

text \<open>
  Rounding nine tenths of the row count to the nearest integer, a half going up
  (\<^term>\<open>round\<close>).
\<close>

definition rounded_nine_tenths :: "nat \<Rightarrow> int" where
  "rounded_nine_tenths n = round (9 / 10 * (of_nat n :: rat))"

section \<open>Properties of \<^verbatim>\<open>calculate_metrics\<close>\<close>

subsection \<open>Auxiliary facts\<close>

lemma earlier_equal_code [code]:
  "earlier_equal rs i \<longleftrightarrow> list_ex (\<lambda>j. rs ! j = rs ! i) [0..<i]"
  by (auto simp: earlier_equal_def list_ex_iff)

lemma length_duplicated_from: "length (duplicated_from seen rs) = length rs"
  by (induction rs arbitrary: seen) simp_all

lemma count_true_Cons: "count_true (b # bs) = (if b then 1 else 0) + count_true bs"
  by (simp add: count_true_def)

lemma count_true_le_length: "count_true bs \<le> length bs"
  by (simp add: count_true_def)





lemma count_duplicated_from_bound:
  "rs \<noteq> [] \<Longrightarrow> count_true (duplicated_from [] rs) < length rs"
proof (cases rs)
  case Nil
  assume "rs \<noteq> []" with Nil show ?thesis by simp
next
  case (Cons r rs')
  have "count_true (duplicated_from [r] rs') \<le> length rs'"
    using count_true_le_length [of "duplicated_from [r] rs'"] by (simp add: length_duplicated_from)
  with Cons show ?thesis by (simp add: count_true_Cons)
qed

lemma calculate_metrics_Inr:
  assumes "calculate_metrics df = Inr m" and "rows df \<noteq> []"
  obtains v where "compute_valid df = Inr v"
    and "m = \<lparr>completeness = round2 (raw_completeness df),
               consistency = round2 (raw_consistency df),
               overall_integrity = round2 (raw_overall_integrity df),
               valid_records = v,
               invalid_records = of_nat (total_records df) - v\<rparr>"
  using assms
  by (auto simp: calculate_metrics_def total_records_def split: sum.splits)

lemma count_duplicated_less:
  assumes "rows df \<noteq> []"
  shows "count_true (duplicated df) < total_records df"
proof (cases "columns df = []")
  case True
  with assms show ?thesis
    by (simp add: duplicated_def count_true_def total_records_def)
next
  case False
  with assms show ?thesis
    using count_duplicated_from_bound [of "rows df"]
    by (simp add: duplicated_def total_records_def)
qed

lemma round_half_even_of_int: "round_half_even (of_int k) = k"
  by (simp add: round_half_even_def)



lemma series_sum_string:
  "list_ex is_string cs \<Longrightarrow> series_sum cs = Inl TypeError"
proof (induction cs)
  case Nil
  then show ?case by simp
next
  case (Cons c cs)
  then show ?case by (cases c) (auto split: sum.splits)
qed


lemma round_half_even_near: "\<bar>of_int (round_half_even z) - z\<bar> \<le> 1 / 2"
proof -
  have "of_int \<lfloor>z\<rfloor> \<le> z" "z < of_int \<lfloor>z\<rfloor> + 1" by linarith+
  then show ?thesis
    by (auto simp: round_half_even_def Let_def)
qed

lemma is_integer_iff: "is_integer x \<longleftrightarrow> (\<exists>k. x = of_int k)"
proof
  assume "is_integer x"
  then have "x = of_int \<lfloor>x\<rfloor>" unfolding is_integer_def by (rule sym)
  then show "\<exists>k. x = of_int k" ..
next
  assume "\<exists>k. x = of_int k"
  then obtain k where "x = of_int k" ..
  then show "is_integer x" unfolding is_integer_def by simp
qed

lemma is_integer_of_int: "is_integer (of_int k)"
  unfolding is_integer_iff by blast

lemma is_integer_of_nat: "is_integer (of_nat k)"
  using is_integer_of_int [of "int k"] by simp

lemma is_integer_add: "is_integer x \<Longrightarrow> is_integer y \<Longrightarrow> is_integer (x + y)"
proof -
  assume "is_integer x" "is_integer y"
  then obtain a b where "x = of_int a" "y = of_int b" unfolding is_integer_iff by blast
  then have "x + y = of_int (a + b)" by simp
  then show ?thesis unfolding is_integer_iff by blast
qed

lemma is_integer_diff: "is_integer x \<Longrightarrow> is_integer y \<Longrightarrow> is_integer (x - y)"
proof -
  assume "is_integer x" "is_integer y"
  then obtain a b where "x = of_int a" "y = of_int b" unfolding is_integer_iff by blast
  then have "x - y = of_int (a - b)" by simp
  then show ?thesis unfolding is_integer_iff by blast
qed

lemma rounded2_round2: "rounded2 (round2 (Fin x)) (Fin x)"
proof -
  let ?k = "round_half_even (x * 100)"
  have "(of_int ?k / 100 :: rat) * 100 = of_int ?k" by simp
  then have int: "is_integer ((of_int ?k / 100 :: rat) * 100)"
    using is_integer_of_int [of ?k] by simp
  have "\<bar>of_int ?k - x * 100\<bar> \<le> 1 / 2" by (rule round_half_even_near)
  then have "\<bar>of_int ?k / 100 - x\<bar> \<le> 1 / 200"
    by linarith
  with int show ?thesis by (simp add: round2_def)
qed

lemma rounded2_two_decimals: "rounded2 y x \<Longrightarrow> two_decimals y"
  by (cases y; cases x) simp_all

lemma finite_values_indicator:
  "finite_values (map (\<lambda>c. indicator (f c)) cs) = map (\<lambda>c. if f c then 1 else 0) cs"
  by (induction cs) (simp_all add: indicator_def)

lemma mean_indicator:
  "cs \<noteq> [] \<Longrightarrow>
   mean (map (\<lambda>c. indicator (f c)) cs)
     = Fin (of_nat (length (filter f cs)) / of_nat (length cs))"
proof -
  assume "cs \<noteq> []"
  have "sum_list (map (\<lambda>c. if f c then 1 else 0) cs) = (of_nat (length (filter f cs)) :: rat)"
    by (induction cs) simp_all
  with \<open>cs \<noteq> []\<close> show ?thesis
    by (simp add: mean_def finite_values_indicator)
qed

lemma notnull_mean_Fin:
  assumes "rows df \<noteq> []"
  shows "notnull_mean df = map (\<lambda>name. Fin (column_ratio df name)) (columns df)"
proof -
  have ne: "column_values df name \<noteq> []" for name
    using assms by (simp add: column_values_def)
  have "mean (map (\<lambda>c. indicator (notnull c)) (column_values df name))
          = Fin (column_ratio df name)" for name
    using mean_indicator [OF ne, of notnull name]
    by (simp add: column_ratio_def column_values_def)
  then show ?thesis
    by (simp only: notnull_mean_def)
qed

lemma finite_values_Fin: "finite_values (map (\<lambda>x. Fin (g x)) xs) = map g xs"
  by (induction xs) simp_all

lemma raw_completeness_Fin:
  assumes "rows df \<noteq> []" and "columns df \<noteq> []"
  shows "raw_completeness df =
           Fin (sum_list (map (column_ratio df) (columns df)) / of_nat (length (columns df)) * 100)"
  using assms
  by (simp add: raw_completeness_def notnull_mean_Fin mean_def finite_values_Fin)

lemma raw_consistency_Fin: "\<exists>c. raw_consistency df = Fin c"
  by (simp add: raw_consistency_def)

lemma raw_overall_Fin:
  assumes "rows df \<noteq> []" and "columns df \<noteq> []"
  shows "\<exists>x. raw_overall_integrity df = Fin x"
  using raw_completeness_Fin [OF assms]
  by (simp add: raw_overall_integrity_def raw_consistency_def)

lemma series_sum_integral:
  "list_all integral_cell cs \<Longrightarrow> series_sum cs = Inr v \<Longrightarrow> is_integer v"
proof (induction cs arbitrary: v)
  case Nil
  then show ?case using is_integer_of_int [of 0] by simp
next
  case (Cons c cs)
  then show ?case
    by (cases c) (auto split: sum.splits intro: is_integer_add)
qed

lemma compute_valid_integral:
  assumes "compute_valid df = Inr v"
    and "''valid'' \<notin> set (columns df) \<or> list_all integral_cell (column_values df ''valid'')"
  shows "is_integer v"
proof (cases "''valid'' \<in> set (columns df)")
  case True
  with assms show ?thesis
    by (auto simp: compute_valid_def intro: series_sum_integral)
next
  case False
  with assms(1) show ?thesis
    by (auto simp: compute_valid_def is_integer_of_int)
qed











subsection \<open>The binary64 product of the fallback\<close>

lemma bit_length_le: "n < 2 ^ k \<Longrightarrow> bit_length n \<le> k"
proof (induction n arbitrary: k rule: bit_length.induct)
  case (1 n)
  show ?case
  proof (cases "n = 0")
    case True
    then show ?thesis by (simp add: bit_length.simps)
  next
    case False
    with "1.prems" obtain j where k: "k = Suc j" by (cases k) auto
    with "1.prems" have "n div 2 < 2 ^ j" by auto
    with "1.IH" False have "bit_length (n div 2) \<le> j" by blast
    with False k show ?thesis by (simp add: bit_length.simps [of n])
  qed
qed

lemma round_half_even_ge_floor: "\<lfloor>z\<rfloor> \<le> round_half_even z"
  by (simp add: round_half_even_def Let_def)

lemma round_half_even_ge_int: "of_int j \<le> z \<Longrightarrow> j \<le> round_half_even z"
  using round_half_even_ge_floor [of z] by (meson le_floor_iff order_trans)

lemma round_half_even_lt_int:
  assumes "z < of_int j - 1 / 2"
  shows "round_half_even z < j"
proof -
  have "\<bar>of_int (round_half_even z) - z\<bar> \<le> 1 / 2" by (rule round_half_even_near)
  then have "(of_int (round_half_even z) :: rat) < of_int j" using assms by linarith
  then show ?thesis by simp
qed

lemma exponent_le:
  assumes "0 < x" and "x < 2 ^ k"
  shows "exponent x \<le> int k - 1"
proof (cases "1 \<le> x")
  case True
  have "\<lfloor>x\<rfloor> < 2 ^ k"
    using assms(2) by (simp add: floor_less_iff)
  then have "nat \<lfloor>x\<rfloor> < 2 ^ k"
    using True by (simp add: nat_less_iff)
  then have "bit_length (nat \<lfloor>x\<rfloor>) \<le> k" by (rule bit_length_le)
  with True show ?thesis by (simp add: exponent_def)
next
  case False
  then have "exponent x \<le> 0" by (simp add: exponent_def)
  moreover have "exponent x \<le> -1" if "k = 0"
  proof -
    have "0 < nat (\<lceil>1 / x\<rceil> - 1)"
      using False assms(1) by (simp add: less_ceiling_iff)
    then have "0 < bit_length (nat (\<lceil>1 / x\<rceil> - 1))"
      by (simp add: bit_length.simps [of "nat (\<lceil>1 / x\<rceil> - 1)"])
    with False show ?thesis by (simp add: exponent_def)
  qed
  ultimately show ?thesis by (cases k) auto
qed

lemma round_double_pos:
  assumes "0 < x" and "exponent x \<le> 52"
  shows "round_double x
           = of_int (round_half_even (x * 2 ^ nat (52 - exponent x))) / 2 ^ nat (52 - exponent x)"
proof -
  let ?k = "nat (52 - exponent x)"
  have u: "pow2 (exponent x - 52) = 1 / 2 ^ ?k"
  proof (cases "exponent x = 52")
    case True
    then show ?thesis by (simp add: pow2_def)
  next
    case False
    with assms(2) have "exponent x - 52 < 0" by simp
    moreover have "nat (- (exponent x - 52)) = ?k" by simp
    ultimately show ?thesis by (simp add: pow2_def)
  qed
  from assms(1) have "round_double x
      = of_int (round_half_even (x / pow2 (exponent x - 52))) * pow2 (exponent x - 52)"
    by (simp add: round_double_def Let_def)
  then show ?thesis unfolding u by simp
qed

lemma round_double_of_nat:
  assumes "n < 2 ^ 53"
  shows "round_double (of_nat n) = of_nat n"
proof (cases "n = 0")
  case True
  then show ?thesis by (simp add: round_double_def)
next
  case False
  let ?x = "of_nat n :: rat"
  let ?k = "nat (52 - exponent ?x)"
  have pos: "0 < ?x" using False by simp
  have "?x < of_nat (2 ^ 53)" using assms by (simp only: of_nat_less_iff)
  then have "?x < 2 ^ 53" by simp
  with pos have e: "exponent ?x \<le> 52" using exponent_le [of ?x 53] by simp
  have "?x * 2 ^ ?k = of_int (int n * 2 ^ ?k)" by simp
  then have "round_half_even (?x * 2 ^ ?k) = int n * 2 ^ ?k"
    using round_half_even_of_int [of "int n * 2 ^ ?k"] by simp
  then show ?thesis
    unfolding round_double_pos [OF pos e] by simp
qed

lemma floor_round_double:
  assumes "0 < x" and "x < 2 ^ 50"
    and lo: "of_int m \<le> x" and hi: "x \<le> of_int m + 37 / 40"
  shows "\<lfloor>round_double x\<rfloor> = m"
proof -
  let ?k = "nat (52 - exponent x)"
  define P :: rat where "P = 2 ^ ?k"
  have e: "exponent x \<le> 49" using exponent_le [OF assms(1,2)] by simp
  then have k: "3 \<le> ?k" by simp
  have "(2::rat) ^ 3 \<le> 2 ^ ?k" using k by (intro power_increasing) simp_all
  then have P8: "8 \<le> P" by (simp add: P_def)
  define r where "r = round_half_even (x * P)"
  have rd: "round_double x = of_int r / P"
    using round_double_pos [OF assms(1)] e by (simp add: r_def P_def)
  have Pint: "P = of_int (2 ^ ?k)" by (simp add: P_def)
  have "of_int (m * 2 ^ ?k) \<le> x * P"
    using lo P8 by (simp add: Pint mult_right_mono)
  then have lower: "m * 2 ^ ?k \<le> r"
    unfolding r_def by (rule round_half_even_ge_int)
  have "x * P \<le> (of_int m + 37 / 40) * P"
    using hi P8 by (intro mult_right_mono) simp_all
  then have "x * P \<le> of_int m * P + 37 / 40 * P" by (simp add: algebra_simps)
  then have "x * P < of_int m * P + P - 1 / 2" using P8 by linarith
  then have "x * P < of_int ((m + 1) * 2 ^ ?k) - 1 / 2"
    by (simp add: Pint algebra_simps)
  then have upper: "r < (m + 1) * 2 ^ ?k"
    unfolding r_def by (rule round_half_even_lt_int)
  have Ppos: "0 < P" using P8 by simp
  have "(of_int (m * 2 ^ ?k) :: rat) \<le> of_int r"
    using lower by (simp only: of_int_le_iff)
  then have "of_int m * P \<le> of_int r" by (simp add: Pint)
  then have a: "of_int m \<le> of_int r / P" using Ppos by (simp add: le_divide_eq)
  have "(of_int r :: rat) < of_int ((m + 1) * 2 ^ ?k)"
    using upper by (simp only: of_int_less_iff)
  then have "of_int r < (of_int m + 1) * P" by (simp add: Pint)
  then have b: "of_int r / P < of_int m + 1" using Ppos by (simp add: divide_less_eq)
  from a b show ?thesis unfolding rd by (simp add: floor_unique)
qed

text \<open>
  The rounding is to the nearest double: the result is a 53-bit significand times the unit
  in the last place of the argument's binade, at most half a unit away from the argument.
\<close>

lemma bit_length_bounds:
  "0 < n \<Longrightarrow> 2 ^ (bit_length n - 1) \<le> n \<and> n < 2 ^ bit_length n"
proof (induction n rule: bit_length.induct)
  case (1 n)
  show ?case
  proof (cases "n div 2 = 0")
    case True
    with "1.prems" have "n = 1" by (simp add: div_eq_0_iff) 
    moreover have "bit_length (Suc 0) = Suc 0"
      by (simp add: bit_length.simps [of "Suc 0"] bit_length.simps [of 0])
    ultimately show ?thesis by simp
  next
    case False
    then have pos: "0 < n div 2" by simp
    with "1.IH" "1.prems" have ih: "2 ^ (bit_length (n div 2) - 1) \<le> n div 2"
      "n div 2 < 2 ^ bit_length (n div 2)" by simp_all
    have b: "bit_length n = Suc (bit_length (n div 2))"
      using "1.prems" by (simp add: bit_length.simps [of n])
    have bpos: "0 < bit_length (n div 2)"
      using pos by (simp add: bit_length.simps [of "n div 2"])
    then obtain j where j: "bit_length (n div 2) = Suc j" by (cases "bit_length (n div 2)") auto
    from ih show ?thesis unfolding b j by auto
  qed
qed

lemma pow2_nat: "pow2 (int k) = 2 ^ k"
  by (simp add: pow2_def)

lemma pow2_neg: "pow2 (- int k) = 1 / 2 ^ k"
  by (cases "k = 0") (simp_all add: pow2_def)

lemma exponent_bounds:
  assumes "0 < x"
  shows "pow2 (exponent x) \<le> x \<and> x < pow2 (exponent x + 1)"
proof (cases "1 \<le> x")
  case True
  define n where "n = nat \<lfloor>x\<rfloor>"
  have npos: "0 < n" using True by (simp add: n_def)
  define b where "b = bit_length n - 1"
  have bl: "bit_length n = Suc b"
    using bit_length_bounds [OF npos] npos unfolding b_def
    by (cases "bit_length n") (auto simp: bit_length.simps [of n])
  have e: "exponent x = int b" using True by (simp add: exponent_def n_def [symmetric] bl)
  from bit_length_bounds [OF npos] have "2 ^ b \<le> n" "n < 2 ^ Suc b" unfolding bl by simp_all
  then have "(of_nat (2 ^ b) :: int) \<le> of_nat n" "(of_nat n :: int) < of_nat (2 ^ Suc b)"
    by (simp_all only: of_nat_le_iff of_nat_less_iff)
  then have "(2::int) ^ b \<le> int n" "int n < 2 ^ Suc b" by simp_all
  then have "(2::int) ^ b \<le> \<lfloor>x\<rfloor>" "\<lfloor>x\<rfloor> + 1 \<le> 2 ^ Suc b"
    using True by (simp_all add: n_def)
  then have i: "(of_int (2 ^ b) :: rat) \<le> of_int \<lfloor>x\<rfloor>"
    "(of_int (\<lfloor>x\<rfloor> + 1) :: rat) \<le> of_int (2 ^ Suc b)"
    by (simp_all only: of_int_le_iff)
  have fl: "of_int \<lfloor>x\<rfloor> \<le> x" "x < of_int \<lfloor>x\<rfloor> + 1" by linarith+
  have p: "(of_int (2 ^ b) :: rat) = 2 ^ b" "(of_int (2 ^ Suc b) :: rat) = 2 ^ Suc b"
    "(of_int (\<lfloor>x\<rfloor> + 1) :: rat) = of_int \<lfloor>x\<rfloor> + 1" by simp_all
  from i(1) fl(1) have "(2::rat) ^ b \<le> x" unfolding p by linarith
  moreover from i(2) fl(2) have "x < 2 ^ Suc b" unfolding p by linarith
  moreover have "pow2 (int b + 1) = 2 ^ Suc b" using pow2_nat [of "Suc b"] by (simp add: add.commute)
  ultimately show ?thesis unfolding e by (simp only: pow2_nat)
next
  case False
  define c where "c = \<lceil>1 / x\<rceil>"
  have inv: "1 < 1 / x" using False assms by simp
  then have c2: "2 \<le> c" unfolding c_def by (simp add: le_ceiling_iff) 
  define n where "n = nat (c - 1)"
  have npos: "0 < n" using c2 by (simp add: n_def)
  define b where "b = bit_length n"
  have e: "exponent x = - int b" using False by (simp add: exponent_def c_def n_def b_def)
  from bit_length_bounds [OF npos] have "2 ^ (b - 1) \<le> n" "n < 2 ^ b" unfolding b_def by simp_all
  then have "(of_nat (2 ^ (b - 1)) :: int) \<le> of_nat n" "(of_nat n :: int) < of_nat (2 ^ b)"
    by (simp_all only: of_nat_le_iff of_nat_less_iff)
  then have "(2::int) ^ (b - 1) \<le> int n" "int n < 2 ^ b" by simp_all
  then have "(2::int) ^ (b - 1) \<le> c - 1" "c \<le> 2 ^ b"
    using c2 by (simp_all add: n_def)
  then have i: "(of_int (2 ^ (b - 1)) :: rat) \<le> of_int (c - 1)"
    "(of_int c :: rat) \<le> of_int (2 ^ b)"
    by (simp_all only: of_int_le_iff)
  have cl: "of_int c - 1 < 1 / x" "1 / x \<le> of_int c" unfolding c_def by linarith+
  have p: "(of_int (2 ^ (b - 1)) :: rat) = 2 ^ (b - 1)" "(of_int (2 ^ b) :: rat) = 2 ^ b"
    "(of_int (c - 1) :: rat) = of_int c - 1" by simp_all
  from i(1) cl(1) have lo: "(2::rat) ^ (b - 1) < 1 / x" unfolding p by linarith
  from i(2) cl(2) have hi: "1 / x \<le> 2 ^ b" unfolding p by linarith
  have bpos: "0 < b" using npos by (simp add: b_def bit_length.simps [of n])
  from hi assms have "1 \<le> x * 2 ^ b" by (simp add: divide_le_eq mult.commute)
  then have ge: "1 / 2 ^ b \<le> x" by (simp add: divide_le_eq)
  from lo assms have "x * 2 ^ (b - 1) < 1" by (simp add: less_divide_eq mult.commute)
  then have lt: "x < 1 / 2 ^ (b - 1)" by (simp add: less_divide_eq)
  have "- int b + 1 = - int (b - 1)" using bpos by simp
  then have "pow2 (- int b + 1) = pow2 (- int (b - 1))" by (rule arg_cong)
  then have up: "pow2 (- int b + 1) = 1 / 2 ^ (b - 1)" by (simp only: pow2_neg)
  from ge lt show ?thesis unfolding e up pow2_neg by (rule conjI)
qed


lemma pow2_power_int: "pow2 k = power_int 2 k"
proof (cases "0 \<le> k")
  case True
  then show ?thesis by (simp add: pow2_def power_int_def)
next
  case False
  have "(1::rat) / 2 ^ nat (- k) = inverse 2 ^ nat (- k)"
    by (simp only: power_inverse divide_inverse mult_1)
  with False show ?thesis by (simp add: pow2_def power_int_def)
qed

lemma pow2_pos: "0 < pow2 k"
  by (simp add: pow2_def)

lemma pow2_shift: "pow2 (k + int j) = 2 ^ j * pow2 k"
  by (simp add: pow2_power_int power_int_add mult.commute)

lemma round_half_even_le_int: "z \<le> of_int j \<Longrightarrow> round_half_even z \<le> j"
proof -
  assume le: "z \<le> of_int j"
  show ?thesis
  proof (cases "z = of_int j")
    case True
    then show ?thesis by (simp add: round_half_even_of_int)
  next
    case False
    with le have "z < of_int j" by simp
    then have "\<lfloor>z\<rfloor> < j" by (simp add: floor_less_iff)
    moreover have "round_half_even z \<le> \<lfloor>z\<rfloor> + 1"
      by (simp add: round_half_even_def Let_def)
    ultimately show ?thesis by linarith
  qed
qed

lemma round_double_nearest:
  assumes "0 < x"
  shows "\<exists>k. round_double x = of_int k * pow2 (exponent x - 52)
             \<and> 2 ^ 52 \<le> k \<and> k \<le> 2 ^ 53
             \<and> \<bar>round_double x - x\<bar> \<le> pow2 (exponent x - 52) / 2"
proof -
  define u where "u = pow2 (exponent x - 52)"
  define k where "k = round_half_even (x / u)"
  have upos: "0 < u" unfolding u_def by (rule pow2_pos)
  have rd: "round_double x = of_int k * u"
    using assms by (simp add: round_double_def Let_def u_def k_def)
  have "pow2 (exponent x - 52 + int 52) = 2 ^ 52 * u"
    "pow2 (exponent x - 52 + int 53) = 2 ^ 53 * u"
    unfolding u_def by (rule pow2_shift)+
  moreover have "exponent x - 52 + int 52 = exponent x"
    "exponent x - 52 + int 53 = exponent x + 1" by simp_all
  ultimately have e: "pow2 (exponent x) = 2 ^ 52 * u" "pow2 (exponent x + 1) = 2 ^ 53 * u"
    by (simp_all only:)
  from exponent_bounds [OF assms] have "2 ^ 52 * u \<le> x" "x < 2 ^ 53 * u"
    unfolding e by simp_all
  then have q: "2 ^ 52 \<le> x / u" "x / u \<le> 2 ^ 53"
    using upos by (simp_all add: le_divide_eq divide_le_eq)
  have q': "(of_int (2 ^ 52) :: rat) \<le> x / u" "x / u \<le> (of_int (2 ^ 53) :: rat)"
    using q by simp_all
  have k: "2 ^ 52 \<le> k" "k \<le> 2 ^ 53"
    unfolding k_def
    using round_half_even_ge_int [OF q'(1)] round_half_even_le_int [OF q'(2)] by blast+
  have "\<bar>of_int k - x / u\<bar> \<le> 1 / 2" unfolding k_def by (rule round_half_even_near)
  then have "\<bar>of_int k - x / u\<bar> * u \<le> 1 / 2 * u"
    using upos by (intro mult_right_mono) simp_all
  moreover have "\<bar>of_int k - x / u\<bar> * u = \<bar>of_int k * u - x\<bar>"
  proof -
    have "\<bar>of_int k - x / u\<bar> * u = \<bar>(of_int k - x / u) * u\<bar>"
      using upos by (simp add: abs_mult)
    also have "(of_int k - x / u) * u = of_int k * u - x"
      using upos by (simp add: algebra_simps)
    finally show ?thesis .
  qed
  ultimately have "\<bar>round_double x - x\<bar> \<le> u / 2" unfolding rd by simp
  with rd k show ?thesis unfolding u_def by blast
qed

lemma float_0_9_eq: "float_0_9 = 9 / 10 + 1 / (5 * 2 ^ 53)"
  by (simp add: float_0_9_def)

lemma fallback_valid_eq:
  assumes "0 < n" and "n < 2 ^ 50"
  shows "fallback_valid n = int (9 * n div 10)"
proof -
  let ?n = "of_nat n :: rat"
  let ?m = "int (9 * n div 10)"
  define x where "x = float_0_9 * ?n"
  have npos: "1 \<le> ?n" using assms(1) by simp
  have "?n < of_nat (2 ^ 50)" using assms(2) by (simp only: of_nat_less_iff)
  then have nlt: "?n < 2 ^ 50" by simp
  have "n < 2 ^ 53" using assms(2) by simp
  then have conv: "round_double ?n = ?n" by (rule round_double_of_nat)
  have x: "x = 9 / 10 * ?n + ?n / (5 * 2 ^ 53)"
    by (simp add: x_def float_0_9_eq algebra_simps)
  have xpos: "0 < x" using npos unfolding x by simp
  have small: "?n / (5 * 2 ^ 53) < 1 / 40" using nlt by simp
  have xlt: "x < 2 ^ 50" using nlt small npos unfolding x by linarith
  have "10 * (9 * n div 10) \<le> 9 * n" by simp
  then have "(of_nat (10 * (9 * n div 10)) :: rat) \<le> of_nat (9 * n)"
    by (simp only: of_nat_le_iff)
  then have m_le: "of_int ?m \<le> 9 / 10 * ?n" by simp
  have "9 * n < 10 * (9 * n div 10) + 10"
    using mod_less_divisor [of 10 "9 * n"] by presburger
  then have "9 * n \<le> 10 * (9 * n div 10) + 9" by simp
  then have "(of_nat (9 * n) :: rat) \<le> of_nat (10 * (9 * n div 10) + 9)"
    by (simp only: of_nat_le_iff)
  then have m_ge: "9 / 10 * ?n \<le> of_int ?m + 9 / 10" by simp
  have tiny: "0 \<le> ?n / (5 * 2 ^ 53)" by simp
  have lo: "of_int ?m \<le> x" using m_le tiny unfolding x by linarith
  have hi: "x \<le> of_int ?m + 37 / 40" using m_ge small unfolding x by linarith
  have fl: "\<lfloor>round_double x\<rfloor> = ?m" using xpos xlt lo hi by (rule floor_round_double)
  have "of_int \<lfloor>round_double x\<rfloor> \<le> round_double x" by (rule of_int_floor_le)
  moreover have "(0::rat) \<le> of_int ?m" by simp
  ultimately have "0 \<le> round_double x" unfolding fl by linarith
  then show ?thesis
    using fl by (simp add: fallback_valid_def conv py_int_def x_def)
qed

subsection \<open>The zero-row guard\<close>

text \<open>
  C2. For every table with zero rows, \<^verbatim>\<open>calculate_metrics\<close> returns the zero-valued
  result: completeness, consistency, overall integrity, valid records and invalid records
  are all 0.
\<close>

theorem zero_rows_zero_metrics:
  assumes "rows df = []"
  shows "calculate_metrics df =
           Inr \<lparr>completeness = Fin 0, consistency = Fin 0, overall_integrity = Fin 0,
                valid_records = 0, invalid_records = 0\<rparr>"
  using assms by (simp add: calculate_metrics_def total_records_def zero_metrics_def)

theorem zero_rows_zero_metrics_witness:
  "rows \<lparr>columns = [''valid'', ''x''], rows = []\<rparr> = [] \<and>
   calculate_metrics \<lparr>columns = [''valid'', ''x''], rows = []\<rparr> =
     Inr \<lparr>completeness = Fin 0, consistency = Fin 0, overall_integrity = Fin 0,
          valid_records = 0, invalid_records = 0\<rparr>"
  using zero_rows_zero_metrics [of "\<lparr>columns = [''valid'', ''x''], rows = []\<rparr>"] by simp

subsection \<open>Valid and invalid records\<close>



text \<open>
  C1, as stated: without a column \<^verbatim>\<open>valid\<close>, \<^verbatim>\<open>valid_records\<close> is nine tenths of the
  row count rounded to the nearest integer. This fails for a table of one row: the code
  returns \<open>int(0.9) = 0\<close>, and 0.9 rounds to 1.
\<close>

theorem nine_tenths_rounding_counterexample:
  "''valid'' \<notin> set (columns \<lparr>columns = [''name''], rows = [[Str ''a'']]\<rparr>)
   \<and> calculate_metrics \<lparr>columns = [''name''], rows = [[Str ''a'']]\<rparr>
       = Inr \<lparr>completeness = Fin 100, consistency = Fin 100, overall_integrity = Fin 100,
              valid_records = 0, invalid_records = 1\<rparr>
   \<and> rounded_nine_tenths (total_records \<lparr>columns = [''name''], rows = [[Str ''a'']]\<rparr>) = 1"
  by code_simp

text \<open>
  C1, amended. For every table with at least one row, fewer than \<open>2^50\<close> rows and no
  column \<^verbatim>\<open>valid\<close>, \<^verbatim>\<open>valid_records\<close> is nine tenths of the row count truncated to an
  integer, \<open>\<lfloor>9 n / 10\<rfloor>\<close>; the rounding of the binary64 product never reaches the next
  integer. Ten rows yield 9.
\<close>

theorem fallback_valid_truncates:
  assumes "rows df \<noteq> []" and "''valid'' \<notin> set (columns df)"
    and "total_records df < 2 ^ 50"
  shows "\<exists>m. calculate_metrics df = Inr m
           \<and> valid_records m = of_int \<lfloor>9 * of_nat (total_records df) / (10::rat)\<rfloor>
           \<and> valid_records m = of_nat (9 * total_records df div 10)"
proof -
  let ?n = "total_records df"
  have pos: "0 < ?n" using assms(1) by (simp add: total_records_def)
  have fb: "fallback_valid ?n = int (9 * ?n div 10)"
    using pos assms(3) by (rule fallback_valid_eq)
  have "\<lfloor>(of_nat (9 * ?n) / of_nat 10 :: rat)\<rfloor> = int (9 * ?n div 10)"
    by (rule floor_divide_of_nat_eq)
  then have fl: "\<lfloor>9 * of_nat ?n / (10::rat)\<rfloor> = int (9 * ?n div 10)" by simp
  have "compute_valid df = Inr (of_nat (9 * ?n div 10))"
    using assms(2) fb by (simp add: compute_valid_def)
  with pos have "\<exists>m. calculate_metrics df = Inr m \<and> valid_records m = of_nat (9 * ?n div 10)"
    by (simp add: calculate_metrics_def)
  then show ?thesis unfolding fl by simp
qed

theorem fallback_valid_truncates_witness:
  "''valid'' \<notin> set (columns \<lparr>columns = [''n''],
       rows = [[Num 0], [Num 1], [Num 2], [Num 3], [Num 4],
               [Num 5], [Num 6], [Num 7], [Num 8], [Num 9]]\<rparr>)
   \<and> total_records \<lparr>columns = [''n''],
       rows = [[Num 0], [Num 1], [Num 2], [Num 3], [Num 4],
               [Num 5], [Num 6], [Num 7], [Num 8], [Num 9]]\<rparr> = 10
   \<and> (\<exists>m. calculate_metrics \<lparr>columns = [''n''],
       rows = [[Num 0], [Num 1], [Num 2], [Num 3], [Num 4],
               [Num 5], [Num 6], [Num 7], [Num 8], [Num 9]]\<rparr> = Inr m
          \<and> valid_records m = 9)"
proof -
  let ?df = "\<lparr>columns = [''n''],
       rows = [[Num 0], [Num 1], [Num 2], [Num 3], [Num 4],
               [Num 5], [Num 6], [Num 7], [Num 8], [Num 9]]\<rparr>"
  have r: "rows ?df \<noteq> []" by simp
  have v: "''valid'' \<notin> set (columns ?df)" by simp
  have n: "total_records ?df = 10" by (simp add: total_records_def)
  have b: "total_records ?df < 2 ^ 50" unfolding n by simp
  from fallback_valid_truncates [OF r v b]
  have "\<exists>m. calculate_metrics ?df = Inr m \<and> valid_records m = 9"
    unfolding n by simp
  with v n show ?thesis by blast
qed

text \<open>
  C10. The sum of the column \<^verbatim>\<open>valid\<close> is not clamped to the row count: for the
  single-row table whose \<^verbatim>\<open>valid\<close> cell is 2, \<^verbatim>\<open>valid_records\<close> is 2, more than the
  one row, and \<^verbatim>\<open>invalid_records\<close> is negative.
\<close>

theorem valid_not_clamped:
  "\<exists>m. calculate_metrics \<lparr>columns = [''valid''], rows = [[Num 2]]\<rparr> = Inr m
       \<and> valid_records m = 2
       \<and> of_nat (total_records \<lparr>columns = [''valid''], rows = [[Num 2]]\<rparr>) < valid_records m
       \<and> invalid_records m < 0"
proof -
  have "calculate_metrics \<lparr>columns = [''valid''], rows = [[Num 2]]\<rparr>
          = Inr \<lparr>completeness = Fin 100, consistency = Fin 100, overall_integrity = Fin 100,
                 valid_records = 2, invalid_records = - 1\<rparr>"
    by code_simp
  then show ?thesis by (simp add: total_records_def)
qed




text \<open>
  C7, as stated: \<^verbatim>\<open>valid_records\<close> and \<^verbatim>\<open>invalid_records\<close> are integers for every
  table. This fails for a column \<^verbatim>\<open>valid\<close> holding the single value 1/2.
\<close>

theorem fractional_valid_counterexample:
  "calculate_metrics \<lparr>columns = [''valid''], rows = [[Num (1 / 2)]]\<rparr>
     = Inr \<lparr>completeness = Fin 100, consistency = Fin 100, overall_integrity = Fin 100,
            valid_records = 1 / 2, invalid_records = 1 / 2\<rparr>
   \<and> \<not> is_integer (1 / 2)"
  by code_simp

text \<open>
  C7, amended. Whenever \<^verbatim>\<open>calculate_metrics\<close> returns: for a table with no rows or with
  at least one column, the three percentages are multiples of 1/100, and for a table with
  rows and columns each is its value before rounding, rounded to two decimals;
  \<^verbatim>\<open>valid_records\<close> and \<^verbatim>\<open>invalid_records\<close> are integers when the table has no rows, has
  no column \<^verbatim>\<open>valid\<close>, or has only integers and missing values in that column.
\<close>

theorem percentages_rounded_counts_integral:
  assumes "calculate_metrics df = Inr m"
  shows "(rows df = [] \<or> columns df \<noteq> [] \<longrightarrow>
            two_decimals (completeness m) \<and> two_decimals (consistency m)
            \<and> two_decimals (overall_integrity m))
       \<and> (rows df \<noteq> [] \<and> columns df \<noteq> [] \<longrightarrow>
            rounded2 (completeness m) (raw_completeness df)
            \<and> rounded2 (consistency m) (raw_consistency df)
            \<and> rounded2 (overall_integrity m) (raw_overall_integrity df))
       \<and> (rows df = [] \<or> ''valid'' \<notin> set (columns df)
            \<or> list_all integral_cell (column_values df ''valid'') \<longrightarrow>
            is_integer (valid_records m) \<and> is_integer (invalid_records m))"
proof (cases "rows df = []")
  case True
  with assms have "m = zero_metrics"
    by (simp add: calculate_metrics_def total_records_def)
  with True show ?thesis
    using is_integer_of_int [of 0] by (simp add: zero_metrics_def)
next
  case False
  from assms False obtain v where v: "compute_valid df = Inr v"
    and m: "m = \<lparr>completeness = round2 (raw_completeness df),
                 consistency = round2 (raw_consistency df),
                 overall_integrity = round2 (raw_overall_integrity df),
                 valid_records = v,
                 invalid_records = of_nat (total_records df) - v\<rparr>"
    by (rule calculate_metrics_Inr)
  have perc: "rounded2 (completeness m) (raw_completeness df)
            \<and> rounded2 (consistency m) (raw_consistency df)
            \<and> rounded2 (overall_integrity m) (raw_overall_integrity df)"
    if cols: "columns df \<noteq> []"
  proof -
    from raw_completeness_Fin [OF False cols]
    obtain a where a: "raw_completeness df = Fin a" by blast
    from raw_consistency_Fin obtain b where b: "raw_consistency df = Fin b" by blast
    from raw_overall_Fin [OF False cols]
    obtain c where c: "raw_overall_integrity df = Fin c" by blast
    show ?thesis
      unfolding m a b c using rounded2_round2 by simp
  qed
  have ints: "is_integer (valid_records m) \<and> is_integer (invalid_records m)"
    if "''valid'' \<notin> set (columns df) \<or> list_all integral_cell (column_values df ''valid'')"
  proof -
    from compute_valid_integral [OF v that] have "is_integer v" .
    then show ?thesis
      unfolding m using is_integer_diff [OF is_integer_of_nat] by simp
  qed
  from False perc ints show ?thesis
    using rounded2_two_decimals by blast
qed

theorem percentages_rounded_counts_integral_witness:
  "calculate_metrics \<lparr>columns = [''a'', ''valid''],
                      rows = [[Num 1, Num 1], [Null, Num 0], [Num 1, Num 1]]\<rparr>
     = Inr \<lparr>completeness = Fin (8333 / 100), consistency = Fin (6667 / 100),
            overall_integrity = Fin (7667 / 100), valid_records = 2, invalid_records = 1\<rparr>
   \<and> list_all integral_cell
        (column_values \<lparr>columns = [''a'', ''valid''],
                        rows = [[Num 1, Num 1], [Null, Num 0], [Num 1, Num 1]]\<rparr> ''valid'')
   \<and> rounded2 (Fin (8333 / 100)) (Fin (250 / 3))
   \<and> rounded2 (Fin (6667 / 100)) (Fin (200 / 3))
   \<and> rounded2 (Fin (7667 / 100)) (Fin (230 / 3))
   \<and> is_integer 2 \<and> is_integer 1"
proof -
  let ?df = "\<lparr>columns = [''a'', ''valid''],
              rows = [[Num 1, Num 1], [Null, Num 0], [Num 1, Num 1]]\<rparr>"
  let ?m = "\<lparr>completeness = Fin (8333 / 100), consistency = Fin (6667 / 100),
            overall_integrity = Fin (7667 / 100), valid_records = 2, invalid_records = 1\<rparr>"
  have h: "calculate_metrics ?df = Inr ?m" by code_simp
  have r: "rows ?df \<noteq> [] \<and> columns ?df \<noteq> []" by simp
  have i: "list_all integral_cell (column_values ?df ''valid'')" by code_simp
  have raw: "raw_completeness ?df = Fin (250 / 3)" "raw_consistency ?df = Fin (200 / 3)"
    "raw_overall_integrity ?df = Fin (230 / 3)" by code_simp+
  from percentages_rounded_counts_integral [OF h] r i raw
  have "rounded2 (Fin (8333 / 100)) (Fin (250 / 3))
      \<and> rounded2 (Fin (6667 / 100)) (Fin (200 / 3))
      \<and> rounded2 (Fin (7667 / 100)) (Fin (230 / 3))
      \<and> is_integer 2 \<and> is_integer 1"
    by simp
  with h i show ?thesis by blast
qed

subsection \<open>Consistency\<close>

text \<open>
  C9. For every table with at least one row, the consistency before rounding is strictly
  greater than 0 and at most 100: the first row is never marked as a duplicate, so at most
  \<open>total_records - 1\<close> rows are.
\<close>

theorem consistency_positive:
  assumes "rows df \<noteq> []"
  shows "count_true (duplicated df) \<le> total_records df - 1 \<and>
         (\<exists>c. raw_consistency df = Fin c \<and> 0 < c \<and> c \<le> 100)"
proof -
  let ?d = "count_true (duplicated df)" and ?n = "total_records df"
  have less: "?d < ?n" using assms by (rule count_duplicated_less)
  then have npos: "0 < (of_nat ?n :: rat)" by simp
  have "(of_nat ?d :: rat) < of_nat ?n" using less by simp
  define q :: rat where "q = of_nat ?d / of_nat ?n"
  have "q < 1" using npos \<open>(of_nat ?d :: rat) < of_nat ?n\<close> by (simp add: q_def divide_less_eq)
  then have lt: "q * 100 < 100" by linarith
  have "0 \<le> q" by (simp add: q_def)
  then have ge: "0 \<le> q * 100" by linarith
  have "raw_consistency df = Fin (100 - q * 100)"
    by (simp add: raw_consistency_def q_def)
  moreover have "0 < 100 - q * 100" using lt by linarith
  moreover have "100 - q * 100 \<le> 100" using ge by linarith
  moreover have "?d \<le> ?n - 1" using less by simp
  ultimately show ?thesis by blast
qed

theorem consistency_positive_witness:
  "rows \<lparr>columns = [''k''], rows = [[Str ''a''], [Str ''a''], [Str ''a'']]\<rparr> \<noteq> [] \<and>
   count_true (duplicated \<lparr>columns = [''k''], rows = [[Str ''a''], [Str ''a''], [Str ''a'']]\<rparr>) = 2 \<and>
   raw_consistency \<lparr>columns = [''k''], rows = [[Str ''a''], [Str ''a''], [Str ''a'']]\<rparr>
     = Fin (100 / 3) \<and> (0::rat) < 100 / 3 \<and> (100::rat) / 3 \<le> 100"
proof -
  let ?df = "\<lparr>columns = [''k''], rows = [[Str ''a''], [Str ''a''], [Str ''a'']]\<rparr>"
  have h: "rows ?df \<noteq> []" by simp
  have c: "count_true (duplicated ?df) = 2" by code_simp
  have r: "raw_consistency ?df = Fin (100 / 3)" by code_simp
  from consistency_positive [OF h] r have "(0::rat) < 100 / 3 \<and> (100::rat) / 3 \<le> 100"
    by auto
  with h c r show ?thesis by blast
qed



subsection \<open>Completeness\<close>




section \<open>Properties of the ingestion\<close>




text \<open>
  The payload is split and decoded before the extension is looked at (lines 131 and 132),
  so a payload without a comma raises whatever the name of the file is.
\<close>

lemma malformed_payload_raises: "read_upload lib ''data:'' ''notes.txt'' = Inl ValueError"
  by (simp add: read_upload_def content_string_def)




end
